theory Spec2Isabelle
  imports Complex_Main "HOL-Library.Multiset"
begin

section \<open>Data model (src/types/transaction.ts)\<close>

text \<open>
  A transaction as the TypeScript interface declares it. The closed union
  \<^verbatim>\<open>"income" | "expense" | "saved"\<close> is a datatype; JavaScript numbers are
  idealised as reals (no rounding, no overflow to Infinity), an id is an integer.
\<close>

datatype ttype = Income | Expense | Saved

fun type_str :: "ttype \<Rightarrow> string" where
  "type_str Income = ''income''"
| "type_str Expense = ''expense''"
| "type_str Saved = ''saved''"

record Transaction =
  tx_id :: int
  date :: string
  amount :: real
  tx_type :: ttype
  reason :: string
  description :: string
  created_at :: string

section \<open>Calendar dates and the ambient clock\<close>

text \<open>
  Dates travel as strings \<^verbatim>\<open>YYYY-MM-DD\<close>. \<open>parse_date\<close> is the ISO date form that
  \<^verbatim>\<open>new Date(s)\<close> and \<^verbatim>\<open>new Date(s + "T00:00:00")\<close> accept; any other string is
  taken to give an invalid Date (engines differ on their fallback parsing).
\<close>

definition is_digit :: "char \<Rightarrow> bool" where
  "is_digit c = (48 \<le> (of_char c :: nat) \<and> (of_char c :: nat) \<le> 57)"

definition digit_val :: "char \<Rightarrow> nat" where
  "digit_val c = of_char c - 48"

definition digits_val :: "string \<Rightarrow> nat" where
  "digits_val s = foldl (\<lambda>n c. 10 * n + digit_val c) 0 s"

definition leap_year :: "int \<Rightarrow> bool" where
  "leap_year y = (y mod 4 = 0 \<and> (y mod 100 \<noteq> 0 \<or> y mod 400 = 0))"

definition days_in_month :: "int \<Rightarrow> nat \<Rightarrow> nat" where
  "days_in_month y m =
     (if m = 2 then (if leap_year y then 29 else 28)
      else if m = 4 \<or> m = 6 \<or> m = 9 \<or> m = 11 then 30 else 31)"

definition parse_date :: "string \<Rightarrow> (int \<times> nat \<times> nat) option" where
  "parse_date s =
     (if length s = 10 \<and> s ! 4 = CHR ''-'' \<and> s ! 7 = CHR ''-''
         \<and> list_all is_digit (take 4 s)
         \<and> list_all is_digit (take 2 (drop 5 s))
         \<and> list_all is_digit (drop 8 s)
      then let y = int (digits_val (take 4 s));
               m = digits_val (take 2 (drop 5 s));
               d = digits_val (drop 8 s)
           in if 1 \<le> m \<and> m \<le> 12 \<and> 1 \<le> d \<and> d \<le> days_in_month y m
              then Some (y, m, d) else None
      else None)"

text \<open>Day number of a date since 1970-01-01 (ECMAScript DayFromYear and MakeDay).\<close>

definition day_from_year :: "int \<Rightarrow> int" where
  "day_from_year y =
     365 * (y - 1970) + (y - 1969) div 4 - (y - 1901) div 100 + (y - 1601) div 400"

definition days_before_month :: "int \<Rightarrow> nat \<Rightarrow> nat" where
  "days_before_month y m = sum_list (map (days_in_month y) [1..<m])"

fun make_day :: "int \<times> nat \<times> nat \<Rightarrow> int" where
  "make_day (y, m, d) = day_from_year y + int (days_before_month y m) + int d - 1"

text \<open>\<^verbatim>\<open>new Date(s).getTime()\<close>: milliseconds of UTC midnight; \<open>None\<close> is NaN.\<close>

definition getTime :: "string \<Rightarrow> int option" where
  "getTime s = map_option (\<lambda>ymd. 86400000 * make_day ymd) (parse_date s)"

definition digit_char :: "nat \<Rightarrow> char" where
  "digit_char d = ''0123456789'' ! d"

fun show_nat :: "nat \<Rightarrow> string" where
  "show_nat n =
     (if n < 10 then [digit_char n]
      else show_nat (n div 10) @ [digit_char (n mod 10)])"

declare show_nat.simps [simp del]

definition pad_left :: "nat \<Rightarrow> string \<Rightarrow> string" where
  "pad_left w s = replicate (w - length s) (CHR ''0'') @ s"

definition month_name :: "nat \<Rightarrow> string" where
  "month_name m =
     [''January'', ''February'', ''March'', ''April'', ''May'', ''June'', ''July'',
      ''August'', ''September'', ''October'', ''November'', ''December''] ! (m - 1)"

text \<open>
  \<^verbatim>\<open>getMonthYear\<close> of both pages: the en-GB long month and the numeric year of the
  local midnight of the date, \<^verbatim>\<open>Invalid Date\<close> when the string does not parse.
\<close>

definition getMonthYear :: "string \<Rightarrow> string" where
  "getMonthYear dateStr =
     (case parse_date dateStr of
        None \<Rightarrow> ''Invalid Date''
      | Some (y, m, d) \<Rightarrow> month_name m @ '' '' @ show_nat (nat y))"

text \<open>
  The wall clock \<^verbatim>\<open>new Date()\<close> is passed in. \<open>getFullYear\<close>, \<open>getMonth\<close> (0 to 11)
  and \<open>getDate\<close> (1 to 31) are its local fields; \<open>isoDate\<close> is the (UTC) calendar date
  that \<^verbatim>\<open>toISOString().split('T')[0]\<close> prints.
\<close>

record Clock =
  getFullYear :: int
  getMonth :: nat
  getDate :: nat
  isoDate :: "int \<times> nat \<times> nat"

fun toISODate :: "int \<times> nat \<times> nat \<Rightarrow> string" where
  "toISODate (y, m, d) =
     (if 0 \<le> y \<and> y \<le> 9999 then pad_left 4 (show_nat (nat y))
      else (if y < 0 then ''-'' else ''+'') @ pad_left 6 (show_nat (nat \<bar>y\<bar>)))
     @ ''-'' @ pad_left 2 (show_nat m) @ ''-'' @ pad_left 2 (show_nat d)"

declare toISODate.simps [simp del]

text \<open>
  The test of the month quick filter and of the monthly pools:
  \<^verbatim>\<open>d.getMonth() === now.getMonth() && d.getFullYear() === now.getFullYear()\<close> for
  \<^verbatim>\<open>d = new Date(t.date + "T00:00:00")\<close>; an invalid date compares false.
\<close>

definition in_current_month :: "Clock \<Rightarrow> Transaction \<Rightarrow> bool" where
  "in_current_month now t =
     (case parse_date (date t) of
        None \<Rightarrow> False
      | Some (y, m, d) \<Rightarrow> m - 1 = getMonth now \<and> y = getFullYear now)"

section \<open>Array primitives\<close>



fun insert_cmp :: "('a \<Rightarrow> 'a \<Rightarrow> real) \<Rightarrow> 'a \<Rightarrow> 'a list \<Rightarrow> 'a list" where
  "insert_cmp cmp x [] = [x]"
| "insert_cmp cmp x (y # ys) =
     (if cmp x y \<le> 0 then x # y # ys else y # insert_cmp cmp x ys)"

definition array_sort :: "('a \<Rightarrow> 'a \<Rightarrow> real) \<Rightarrow> 'a list \<Rightarrow> 'a list" where
  "array_sort cmp xs = foldr (insert_cmp cmp) xs []"

section \<open>Wallet page (src/app/page.tsx)\<close>


text \<open>
  \<^verbatim>\<open>groups\<close> is an object keyed by the month label; its entries keep insertion
  order, so it is an association list. One step of the \<^verbatim>\<open>forEach\<close>: create the
  group when the key is new, push the transaction, add the signed amount.
\<close>

record MonthGroup =
  transactions :: "Transaction list"
  total :: real

definition signed_amount :: "Transaction \<Rightarrow> real" where
  "signed_amount t = (if tx_type t = Income then amount t else - amount t)"

fun group_add :: "string \<Rightarrow> Transaction \<Rightarrow> (string \<times> MonthGroup) list
                   \<Rightarrow> (string \<times> MonthGroup) list" where
  "group_add k t [] = [(k, \<lparr>transactions = [t], total = 0 + signed_amount t\<rparr>)]"
| "group_add k t ((k', g) # gs) =
     (if k' = k
      then (k', \<lparr>transactions = transactions g @ [t], total = total g + signed_amount t\<rparr>) # gs
      else (k', g) # group_add k t gs)"

definition groups_of :: "Transaction list \<Rightarrow> (string \<times> MonthGroup) list" where
  "groups_of ts = foldl (\<lambda>gs t. group_add (getMonthYear (date t)) t gs) [] ts"

text \<open>
  The comparator of the entries:
  \<^verbatim>\<open>new Date(b[1].transactions[0].date).getTime() - new Date(a[1].transactions[0].date).getTime()\<close>.
  A NaN result (an invalid date) counts as 0 in \<^verbatim>\<open>sort\<close>.
\<close>

definition first_time :: "MonthGroup \<Rightarrow> int option" where
  "first_time g = (case transactions g of [] \<Rightarrow> None | t # _ \<Rightarrow> getTime (date t))"

definition cmp_entries :: "string \<times> MonthGroup \<Rightarrow> string \<times> MonthGroup \<Rightarrow> real" where
  "cmp_entries a b =
     (case (first_time (snd a), first_time (snd b)) of
        (Some dateA, Some dateB) \<Rightarrow> real_of_int (dateB - dateA)
      | _ \<Rightarrow> 0)"

definition currentMonthKey :: "Clock \<Rightarrow> string" where
  "currentMonthKey now = getMonthYear (toISODate (isoDate now))"

definition groupedTransactions ::
  "Transaction list \<Rightarrow> bool \<Rightarrow> Clock \<Rightarrow> (string \<times> MonthGroup) list" where
  "groupedTransactions ts showAllMonths now =
     (let entries = array_sort cmp_entries (groups_of ts)
      in if \<not> showAllMonths then filter (\<lambda>e. fst e = currentMonthKey now) entries
         else entries)"

section \<open>JavaScript string and number primitives\<close>

text \<open>
  Strings compare by code unit (\<open>str_less\<close>); \<^verbatim>\<open>toLowerCase\<close> is modelled on ASCII
  letters; \<^verbatim>\<open>includes\<close> is the substring test; \<^verbatim>\<open>localeCompare\<close> on the three
  lower-case type names is the code unit order, as -1, 0 or 1.
\<close>

fun str_less :: "string \<Rightarrow> string \<Rightarrow> bool" where
  "str_less [] [] = False"
| "str_less [] (y # ys) = True"
| "str_less (x # xs) [] = False"
| "str_less (x # xs) (y # ys) =
     ((of_char x :: nat) < of_char y \<or> (x = y \<and> str_less xs ys))"

definition lower_char :: "char \<Rightarrow> char" where
  "lower_char c =
     (case map_of (zip ''ABCDEFGHIJKLMNOPQRSTUVWXYZ'' ''abcdefghijklmnopqrstuvwxyz'') c of
        Some l \<Rightarrow> l
      | None \<Rightarrow> c)"

definition toLowerCase :: "string \<Rightarrow> string" where
  "toLowerCase s = map lower_char s"

fun str_includes :: "string \<Rightarrow> string \<Rightarrow> bool" where
  "str_includes [] q = (q = [])"
| "str_includes (c # cs) q = (take (length q) (c # cs) = q \<or> str_includes cs q)"

definition localeCompare :: "string \<Rightarrow> string \<Rightarrow> real" where
  "localeCompare a b = (if str_less a b then - 1 else if a = b then 0 else 1)"

text \<open>
  The result of \<^verbatim>\<open>parseFloat\<close>: NaN, a finite value or an infinity. The parser skips
  leading white space, reads a sign, then \<^verbatim>\<open>Infinity\<close> or the longest decimal literal
  (digits, an optional fraction, an optional exponent) and ignores the rest.
\<close>

datatype jsnum = NaN | Fin real | PosInf | NegInf

definition is_space :: "char \<Rightarrow> bool" where
  "is_space c = ((of_char c :: nat) = 32 \<or> (9 \<le> (of_char c :: nat) \<and> (of_char c :: nat) \<le> 13))"

definition exponent_part :: "string \<Rightarrow> int" where
  "exponent_part r =
     (case r of
        [] \<Rightarrow> 0
      | e # r' \<Rightarrow>
          if e = CHR ''e'' \<or> e = CHR ''E'' then
            (case r' of
               [] \<Rightarrow> 0
             | s # r'' \<Rightarrow>
                 if s = CHR ''-'' then - int (digits_val (takeWhile is_digit r''))
                 else if s = CHR ''+'' then int (digits_val (takeWhile is_digit r''))
                 else int (digits_val (takeWhile is_digit r')))
          else 0)"

definition unsigned_decimal :: "string \<Rightarrow> real option" where
  "unsigned_decimal s =
     (let ip = takeWhile is_digit s;
          r1 = dropWhile is_digit s;
          fp = (case r1 of [] \<Rightarrow> [] | c # r \<Rightarrow> if c = CHR ''.'' then takeWhile is_digit r else []);
          r2 = (case r1 of [] \<Rightarrow> [] | c # r \<Rightarrow> if c = CHR ''.'' then dropWhile is_digit r else r1);
          e = exponent_part r2;
          mant = real (digits_val ip) + real (digits_val fp) / 10 ^ length fp
      in if ip = [] \<and> fp = [] then None
         else Some (if 0 \<le> e then mant * 10 ^ nat e else mant / 10 ^ nat (- e)))"

definition signed_literal :: "bool \<Rightarrow> string \<Rightarrow> jsnum" where
  "signed_literal neg s =
     (if take 8 s = ''Infinity'' then (if neg then NegInf else PosInf)
      else (case unsigned_decimal s of
              None \<Rightarrow> NaN
            | Some v \<Rightarrow> Fin (if neg then - v else v)))"

definition parseFloat :: "string \<Rightarrow> jsnum" where
  "parseFloat str =
     (case dropWhile is_space str of
        [] \<Rightarrow> NaN
      | c # cs \<Rightarrow>
          if c = CHR ''-'' then signed_literal True cs
          else if c = CHR ''+'' then signed_literal False cs
          else signed_literal False (c # cs))"

text \<open>\<^verbatim>\<open>x >= n\<close> and \<^verbatim>\<open>x <= n\<close> for a finite \<open>x\<close>; every comparison with NaN is false.\<close>

fun num_ge :: "real \<Rightarrow> jsnum \<Rightarrow> bool" where
  "num_ge x NaN = False"
| "num_ge x (Fin v) = (v \<le> x)"
| "num_ge x PosInf = False"
| "num_ge x NegInf = True"

fun num_le :: "real \<Rightarrow> jsnum \<Rightarrow> bool" where
  "num_le x NaN = False"
| "num_le x (Fin v) = (x \<le> v)"
| "num_le x PosInf = True"
| "num_le x NegInf = False"

section \<open>Data tools page (src/app/data-tools/page.tsx)\<close>

datatype SortField = SortDate | SortAmount | SortType

datatype SortOrder = Asc | Desc

text \<open>The filter state of the component, as one value.\<close>

record Filters =
  sortField :: SortField
  sortOrder :: SortOrder
  showAllMonths :: bool
  searchQuery :: string
  startDate :: string
  endDate :: string
  minAmount :: string
  maxAmount :: string
  typeFilter :: string

text \<open>Steps 1 to 5 of \<^verbatim>\<open>filteredTransactions\<close>: each active filter in turn.\<close>

definition matches_search :: "string \<Rightarrow> Transaction \<Rightarrow> bool" where
  "matches_search query t =
     (str_includes (toLowerCase (reason t)) query
      \<or> (description t \<noteq> [] \<and> str_includes (toLowerCase (description t)) query))"

definition applyFilters :: "Filters \<Rightarrow> Clock \<Rightarrow> Transaction list \<Rightarrow> Transaction list" where
  "applyFilters f now ts =
     (let r1 = (if \<not> showAllMonths f \<and> startDate f = [] \<and> endDate f = []
                then filter (in_current_month now) ts else ts);
          r2 = (if startDate f \<noteq> [] then filter (\<lambda>t. \<not> str_less (date t) (startDate f)) r1 else r1);
          r3 = (if endDate f \<noteq> [] then filter (\<lambda>t. \<not> str_less (endDate f) (date t)) r2 else r2);
          r4 = (if minAmount f \<noteq> [] then filter (\<lambda>t. num_ge (amount t) (parseFloat (minAmount f))) r3 else r3);
          r5 = (if maxAmount f \<noteq> [] then filter (\<lambda>t. num_le (amount t) (parseFloat (maxAmount f))) r4 else r4);
          r6 = (if searchQuery f \<noteq> [] then filter (matches_search (toLowerCase (searchQuery f))) r5 else r5)
      in if typeFilter f \<noteq> ''all'' then filter (\<lambda>t. type_str (tx_type t) = typeFilter f) r6 else r6)"

text \<open>
  Step 6, the comparator handed to \<^verbatim>\<open>sort\<close>. A difference of two times of which one
  is NaN is NaN, and so is its negation; \<^verbatim>\<open>sort\<close> reads NaN as 0.
\<close>

definition comparison :: "SortField \<Rightarrow> Transaction \<Rightarrow> Transaction \<Rightarrow> real" where
  "comparison field a b =
     (case field of
        SortDate \<Rightarrow>
          (case (getTime (date a), getTime (date b)) of
             (Some x, Some y) \<Rightarrow> real_of_int (x - y)
           | _ \<Rightarrow> 0)
      | SortAmount \<Rightarrow> amount a - amount b
      | SortType \<Rightarrow> localeCompare (type_str (tx_type a)) (type_str (tx_type b)))"

definition compare_tx :: "SortField \<Rightarrow> SortOrder \<Rightarrow> Transaction \<Rightarrow> Transaction \<Rightarrow> real" where
  "compare_tx field order a b =
     (if order = Asc then comparison field a b else - comparison field a b)"

definition filteredTransactions :: "Filters \<Rightarrow> Clock \<Rightarrow> Transaction list \<Rightarrow> Transaction list" where
  "filteredTransactions f now ts =
     array_sort (compare_tx (sortField f) (sortOrder f)) (applyFilters f now ts)"





subsection \<open>Export\<close>

text \<open>
  \<^verbatim>\<open>handleExport\<close> builds \<open>csvContent\<close>: the header line and one line per record of the
  filtered view, joined by line feeds. Numbers are joined in through JavaScript's
  conversion of a number to a string, which is a parameter \<open>numStr\<close> here; the reason and
  the description are wrapped in double quotes with every inner quote doubled. The
  double quote is \<open>CHR 0x22\<close>, the line feed \<open>CHR 0x0A\<close>.
\<close>

fun join :: "string \<Rightarrow> string list \<Rightarrow> string" where
  "join sep [] = []"
| "join sep [x] = x"
| "join sep (x # y # ys) = x @ sep @ join sep (y # ys)"

definition double_quotes :: "string \<Rightarrow> string" where
  "double_quotes s = concat (map (\<lambda>c. if c = CHR 0x22 then [CHR 0x22, CHR 0x22] else [c]) s)"

definition quoted :: "string \<Rightarrow> string" where
  "quoted s = [CHR 0x22] @ double_quotes s @ [CHR 0x22]"

definition headers :: "string list" where
  "headers = [''ID'', ''Date'', ''Amount'', ''Type'', ''Reason'', ''Description'']"

definition export_row :: "(real \<Rightarrow> string) \<Rightarrow> Transaction \<Rightarrow> string" where
  "export_row numStr t =
     join '','' [numStr (real_of_int (tx_id t)), date t, numStr (amount t),
               type_str (tx_type t), quoted (reason t), quoted (description t)]"

definition csvContent ::
  "(real \<Rightarrow> string) \<Rightarrow> Filters \<Rightarrow> Clock \<Rightarrow> Transaction list \<Rightarrow> string" where
  "csvContent numStr f now ts =
     join [CHR 0x0A] (join '','' headers # map (export_row numStr) (filteredTransactions f now ts))"

text \<open>
  The reader's side of the export, written from the specification's words ("standard
  delimited-text escaping", RFC 4180) and not from the source: \<open>spec_csv_parse\<close> reads
  records separated by line feeds and fields separated by commas; a field that starts
  with a double quote runs to its closing quote, a doubled quote inside it standing for
  one quote; a quote inside an unquoted field, or text after a closing quote, is
  malformed (\<open>None\<close>). The accumulators hold the current field, the fields of the
  current record and the records read so far, each reversed.
\<close>

datatype csv_mode = FieldStart | Unquoted | Quoted | QuoteSeen

fun csv_run :: "csv_mode \<Rightarrow> string \<Rightarrow> string list \<Rightarrow> string list list \<Rightarrow> string
                 \<Rightarrow> string list list option" where
  "csv_run Quoted cur fs rs [] = None"
| "csv_run mode cur fs rs [] = Some (rev (rev (rev cur # fs) # rs))"
| "csv_run FieldStart cur fs rs (c # cs) =
     (if c = CHR 0x22 then csv_run Quoted [] fs rs cs
      else if c = CHR '','' then csv_run FieldStart [] ([] # fs) rs cs
      else if c = CHR 0x0A then csv_run FieldStart [] [] (rev ([] # fs) # rs) cs
      else csv_run Unquoted [c] fs rs cs)"
| "csv_run Unquoted cur fs rs (c # cs) =
     (if c = CHR 0x22 then None
      else if c = CHR '','' then csv_run FieldStart [] (rev cur # fs) rs cs
      else if c = CHR 0x0A then csv_run FieldStart [] [] (rev (rev cur # fs) # rs) cs
      else csv_run Unquoted (c # cur) fs rs cs)"
| "csv_run Quoted cur fs rs (c # cs) =
     (if c = CHR 0x22 then csv_run QuoteSeen cur fs rs cs
      else csv_run Quoted (c # cur) fs rs cs)"
| "csv_run QuoteSeen cur fs rs (c # cs) =
     (if c = CHR 0x22 then csv_run Quoted (CHR 0x22 # cur) fs rs cs
      else if c = CHR '','' then csv_run FieldStart [] (rev cur # fs) rs cs
      else if c = CHR 0x0A then csv_run FieldStart [] [] (rev (rev cur # fs) # rs) cs
      else None)"

definition spec_csv_parse :: "string \<Rightarrow> string list list option" where
  "spec_csv_parse s = csv_run FieldStart [] [] [] s"

text \<open>A field that needs no quoting: no comma, no double quote, no line feed.\<close>

definition csv_plain :: "string \<Rightarrow> bool" where
  "csv_plain s = list_all (\<lambda>c. c \<noteq> CHR '','' \<and> c \<noteq> CHR 0x22 \<and> c \<noteq> CHR 0x0A) s"

text \<open>The six fields of a record, as exported.\<close>

definition export_fields :: "(real \<Rightarrow> string) \<Rightarrow> Transaction \<Rightarrow> string list" where
  "export_fields numStr t =
     [numStr (real_of_int (tx_id t)), date t, numStr (amount t), type_str (tx_type t),
      reason t, description t]"

section \<open>Earlier data tools page (src/unnamed/part\_000)\<close>




section \<open>Transactions API (src/app/api/transactions/route.ts)\<close>

text \<open>
  A request body is a JSON object: a map from keys to JSON values, \<open>JUndefined\<close> for an
  absent key (scalars only; arrays and objects are not modelled). \<^verbatim>\<open>!x\<close> holds of the
  falsy values. \<^verbatim>\<open>parseFloat\<close> converts its argument to a string first.
\<close>

datatype json = JUndefined | JNull | JBool bool | JNumber real | JString string

fun falsy :: "json \<Rightarrow> bool" where
  "falsy JUndefined = True"
| "falsy JNull = True"
| "falsy (JBool b) = (\<not> b)"
| "falsy (JNumber r) = (r = 0)"
| "falsy (JString s) = (s = [])"

fun parseFloat_json :: "json \<Rightarrow> jsnum" where
  "parseFloat_json (JString s) = parseFloat s"
| "parseFloat_json (JNumber r) = Fin r"
| "parseFloat_json v = NaN"

fun not_positive :: "jsnum \<Rightarrow> bool" where
  "not_positive NaN = True"
| "not_positive (Fin v) = (v \<le> 0)"
| "not_positive PosInf = False"
| "not_positive NegInf = True"

text \<open>
  \<^verbatim>\<open>parseInt\<close>: leading white space, a sign, an optional \<^verbatim>\<open>0x\<close> prefix (radix 16), then
  the longest run of digits of the radix; \<open>None\<close> is NaN.
\<close>

definition digit_of :: "char \<Rightarrow> nat" where
  "digit_of c =
     (case map_of (zip ''0123456789abcdefghijklmnopqrstuvwxyz'' [0..<36]) (lower_char c) of
        Some d \<Rightarrow> d
      | None \<Rightarrow> 36)"

definition radix_digits :: "nat \<Rightarrow> string \<Rightarrow> int option" where
  "radix_digits radix s =
     (let ds = takeWhile (\<lambda>c. digit_of c < radix) s
      in if ds = [] then None
         else Some (int (foldl (\<lambda>n c. radix * n + digit_of c) 0 ds)))"

definition unsigned_int :: "string \<Rightarrow> int option" where
  "unsigned_int s =
     (if take 2 s = ''0x'' \<or> take 2 s = ''0X'' then radix_digits 16 (drop 2 s)
      else radix_digits 10 s)"

definition parseInt :: "string \<Rightarrow> int option" where
  "parseInt str =
     (case dropWhile is_space str of
        [] \<Rightarrow> None
      | c # cs \<Rightarrow>
          if c = CHR ''-'' then map_option uminus (unsigned_int cs)
          else if c = CHR ''+'' then unsigned_int cs
          else unsigned_int (c # cs))"

text \<open>
  The table: rows are the bound arguments of the insert with their id;
  \<open>lastInsertRowid\<close> is the autoincrement counter. The awaited calls may throw, and
  whether they do is an input of a handler: \<open>init_error\<close> is the outcome of what runs
  before the checks (\<^verbatim>\<open>ensureInit()\<close>, and \<^verbatim>\<open>request.json()\<close> in \<^verbatim>\<open>POST\<close>),
  \<open>exec_error\<close> the outcome of the \<^verbatim>\<open>db.execute\<close> of the statement; \<open>Some msg\<close> is an
  Error with that message, which the handler's \<^verbatim>\<open>catch\<close> turns into status 500.
\<close>

record Row =
  row_id :: int
  row_date :: json
  row_amount :: jsnum
  row_type :: json
  row_reason :: json
  row_description :: json

record Database =
  rows :: "Row list"
  lastInsertRowid :: int

text \<open>
  The JSON of a response: \<open>MissingFields\<close> is \<^verbatim>\<open>Missing required fields: date, amount, type, reason\<close>,
  \<open>AmountNotPositive\<close> is \<^verbatim>\<open>Amount must be a positive number\<close>, \<open>TypeNotAllowed\<close> is
  \<^verbatim>\<open>Type must be 'income' or 'expense'\<close>, \<open>IdRequired\<close> is \<^verbatim>\<open>Transaction ID is required\<close>,
  \<open>Thrown msg\<close> is the message of a caught Error; \<open>TransactionAdded id\<close> and
  \<open>TransactionDeleted\<close> are the two success messages.
\<close>

datatype payload =
    MissingFields | AmountNotPositive | TypeNotAllowed | IdRequired | Thrown string
  | TransactionAdded int | TransactionDeleted

record Response =
  status :: nat
  payload :: payload

definition POST ::
  "Database \<Rightarrow> (string \<Rightarrow> json) \<Rightarrow> string option \<Rightarrow> string option \<Rightarrow> Database \<times> Response" where
  "POST db body init_error exec_error =
     (case init_error of
        Some msg \<Rightarrow> (db, \<lparr>status = 500, payload = Thrown msg\<rparr>)
      | None \<Rightarrow>
     (let date = body ''date''; amount = body ''amount''; type = body ''type'';
          reason = body ''reason''; description = body ''description''
      in if falsy date \<or> amount = JUndefined \<or> falsy type \<or> falsy reason
         then (db, \<lparr>status = 400, payload = MissingFields\<rparr>)
         else
           let parsedAmount = parseFloat_json amount
           in if not_positive parsedAmount
              then (db, \<lparr>status = 400, payload = AmountNotPositive\<rparr>)
              else if \<not> (type = JString ''income'' \<or> type = JString ''expense'')
              then (db, \<lparr>status = 400, payload = TypeNotAllowed\<rparr>)
              else
                (case exec_error of
                   Some msg \<Rightarrow> (db, \<lparr>status = 500, payload = Thrown msg\<rparr>)
                 | None \<Rightarrow>
                     let new_id = lastInsertRowid db + 1;
                         row = \<lparr>row_id = new_id, row_date = date, row_amount = parsedAmount,
                                row_type = type, row_reason = reason,
                                row_description =
                                  (if description = JUndefined \<or> description = JNull
                                   then JString [] else description)\<rparr>
                     in (\<lparr>rows = rows db @ [row], lastInsertRowid = new_id\<rparr>,
                         \<lparr>status = 201, payload = TransactionAdded new_id\<rparr>))))"


section \<open>Observations used in the statements\<close>

text \<open>
  Observations on an entry, used to state the order of the groups: the parsed date of
  its first-encountered member, "dated in a later month", and "dated no earlier".
\<close>

definition first_member_date :: "string \<times> MonthGroup \<Rightarrow> (int \<times> nat \<times> nat) option" where
  "first_member_date e =
     (case transactions (snd e) of [] \<Rightarrow> None | t # _ \<Rightarrow> parse_date (date t))"

definition later_month :: "(int \<times> nat \<times> nat) option \<Rightarrow> (int \<times> nat \<times> nat) option \<Rightarrow> bool" where
  "later_month a b =
     (case (a, b) of
        (Some (ya, ma, da), Some (yb, mb, db)) \<Rightarrow> yb < ya \<or> (yb = ya \<and> mb < ma)
      | _ \<Rightarrow> False)"

text \<open>The key a sort field orders by: the time, the amount, the rank of the type name.\<close>

fun type_rank :: "ttype \<Rightarrow> real" where
  "type_rank Expense = 0"
| "type_rank Income = 1"
| "type_rank Saved = 2"

definition sort_key_of :: "SortField \<Rightarrow> Transaction \<Rightarrow> real" where
  "sort_key_of field t =
     (case field of
        SortDate \<Rightarrow> (case getTime (date t) of Some x \<Rightarrow> real_of_int x | None \<Rightarrow> 0)
      | SortAmount \<Rightarrow> amount t
      | SortType \<Rightarrow> type_rank (tx_type t))"


definition not_before :: "int option \<Rightarrow> int option \<Rightarrow> bool" where
  "not_before a b = (case (a, b) of (Some x, Some y) \<Rightarrow> y \<le> x | _ \<Rightarrow> False)"

section \<open>Example ledger\<close>

text \<open>
  Notation for the concrete ledgers at which the theorems are exercised: the three March
  2024 records of the specification's example and one April expense, not in date order.
\<close>

abbreviation tx :: "int \<Rightarrow> string \<Rightarrow> real \<Rightarrow> ttype \<Rightarrow> string \<Rightarrow> Transaction" where
  "tx i d a ty r \<equiv> \<lparr>tx_id = i, date = d, amount = a, tx_type = ty, reason = r,
                     description = [], created_at = []\<rparr>"

abbreviation ledger :: "Transaction list" where
  "ledger \<equiv> [tx 1 ''2024-03-01'' 1000 Income ''Salary'', tx 4 ''2024-04-05'' 50 Expense ''Lunch'',
             tx 2 ''2024-03-02'' 400 Expense ''Rent'', tx 3 ''2024-03-02'' 200 Saved ''Savings'']"

abbreviation april10 :: Clock where
  "april10 \<equiv> \<lparr>getFullYear = 2024, getMonth = 3, getDate = 10, isoDate = (2024, 4, 10)\<rparr>"

abbreviation by_amount :: "SortOrder \<Rightarrow> Filters" where
  "by_amount ord \<equiv> \<lparr>sortField = SortAmount, sortOrder = ord, showAllMonths = True,
                     searchQuery = [], startDate = [], endDate = [], minAmount = [],
                     maxAmount = [], typeFilter = ''all''\<rparr>"

abbreviation by_date :: "SortOrder \<Rightarrow> Filters" where
  "by_date ord \<equiv> \<lparr>sortField = SortDate, sortOrder = ord, showAllMonths = True,
                   searchQuery = [], startDate = [], endDate = [], minAmount = [],
                   maxAmount = [], typeFilter = ''all''\<rparr>"



abbreviation saved_request :: "string \<Rightarrow> json" where
  "saved_request \<equiv> (\<lambda>k. JUndefined)(''date'' := JString ''2024-03-02'', ''amount'' := JString ''200'',
       ''type'' := JString ''saved'', ''reason'' := JString ''Savings'',
       ''description'' := JString [])"

abbreviation two_rows :: Database where
  "two_rows \<equiv> \<lparr>rows = [\<lparr>row_id = 1, row_date = JString ''2024-03-01'', row_amount = Fin 1000,
                        row_type = JString ''income'', row_reason = JString ''Salary'',
                        row_description = JString []\<rparr>,
                      \<lparr>row_id = 2, row_date = JString ''2024-03-02'', row_amount = Fin 400,
                        row_type = JString ''expense'', row_reason = JString ''Rent'',
                        row_description = JString []\<rparr>],
                lastInsertRowid = 2\<rparr>"

text \<open>
  For the export: a record whose reason is \<^verbatim>\<open>Lunch, "fancy"\<close>, and the conversion of an
  integer-valued number to its decimal digits as an instance of \<open>numStr\<close>.
\<close>

abbreviation fancy :: Transaction where
  "fancy \<equiv> tx 5 ''2024-03-05'' 120 Expense (''Lunch, '' @ [CHR 0x22] @ ''fancy'' @ [CHR 0x22])"

definition int_str :: "real \<Rightarrow> string" where
  "int_str x = (if x < 0 then ''-'' @ show_nat (nat (- \<lfloor>x\<rfloor>)) else show_nat (nat \<lfloor>x\<rfloor>))"

section \<open>Helper lemmas\<close>


lemma group_add_closed:
  assumes "distinct ks" and "key t = k" and "k \<notin> set ks \<Longrightarrow> filter (\<lambda>u. key u = k) ts = []"
  shows "group_add k t (map (\<lambda>k'. (k', \<lparr>transactions = filter (\<lambda>u. key u = k') ts,
            total = sum_list (map signed_amount (filter (\<lambda>u. key u = k') ts))\<rparr>)) ks)
       = map (\<lambda>k'. (k', \<lparr>transactions = filter (\<lambda>u. key u = k') (ts @ [t]),
            total = sum_list (map signed_amount (filter (\<lambda>u. key u = k') (ts @ [t])))\<rparr>))
           (if k \<in> set ks then ks else ks @ [k])"
  using assms
  by (induction ks) auto

lemma groups_of_closed:
  "groups_of ts =
     map (\<lambda>k. (k, \<lparr>transactions = filter (\<lambda>u. getMonthYear (date u) = k) ts,
                    total = sum_list (map signed_amount (filter (\<lambda>u. getMonthYear (date u) = k) ts))\<rparr>))
         (rev (remdups (rev (map (\<lambda>u. getMonthYear (date u)) ts))))"
proof (induction ts rule: rev_induct)
  case Nil
  then show ?case by (simp add: groups_of_def)
next
  case (snoc t ts)
  let ?key = "\<lambda>u. getMonthYear (date u)"
  let ?ks = "rev (remdups (rev (map ?key ts)))"
  have step: "groups_of (ts @ [t]) = group_add (?key t) t (groups_of ts)"
    by (simp add: groups_of_def)
  have d: "distinct ?ks" by simp
  have e: "?key t \<notin> set ?ks \<Longrightarrow> filter (\<lambda>u. ?key u = ?key t) ts = []"
  proof -
    assume a: "?key t \<notin> set ?ks"
    have "\<forall>u\<in>set ts. ?key u \<noteq> ?key t"
    proof
      fix u assume "u \<in> set ts"
      then have "?key u \<in> set ?ks" by simp
      with a show "?key u \<noteq> ?key t" by metis
    qed
    then show ?thesis by (simp add: filter_empty_conv)
  qed
  have ks': "rev (remdups (rev (map ?key (ts @ [t])))) = (if ?key t \<in> set ?ks then ?ks else ?ks @ [?key t])"
    by simp
  show ?case
    unfolding step snoc.IH ks'
    by (rule group_add_closed[OF d refl e])
qed





lemma div_step:
  fixes a k :: int
  assumes "0 < k"
  shows "(a + 1) div k = a div k + (if (a + 1) mod k = 0 then 1 else 0)"
proof (cases "(a + 1) mod k = 0")
  case True
  then obtain q where q: "a + 1 = k * q" by (metis mod_eq_0_iff_dvd dvd_def)
  then have a: "a = k * (q - 1) + (k - 1)" by (simp add: algebra_simps)
  have "a div k = q - 1"
    by (rule int_div_pos_eq[OF a]) (use assms in simp_all)
  moreover have "(a + 1) div k = q" using q assms by simp
  ultimately show ?thesis using True by simp
next
  case False
  have m: "0 \<le> a mod k" "a mod k < k" using assms by simp_all
  have ne: "a mod k + 1 \<noteq> k"
  proof
    assume "a mod k + 1 = k"
    then have "(a + 1) mod k = 0"
      by (metis mod_add_left_eq mod_self)
    with False show False by simp
  qed
  have e: "a + 1 = k * (a div k) + (a mod k + 1)" by simp
  have "(a + 1) div k = a div k"
    by (rule int_div_pos_eq[OF e]) (use m ne in simp_all)
  with False show ?thesis by simp
qed

lemma mod_shift:
  fixes y k c :: int
  assumes "k dvd c"
  shows "((y - c) mod k = 0) = (y mod k = 0)"
  using assms by (simp add: mod_eq_0_iff_dvd dvd_diff_left_iff)

lemma leap_count:
  "(p400 \<Longrightarrow> p100) \<Longrightarrow> (p100 \<Longrightarrow> p4) \<Longrightarrow>
   (if p4 then 1 else 0) - (if p100 then 1 else 0) + (if p400 then 1 else (0::int))
     = (if p4 \<and> (\<not> p100 \<or> p400) then 1 else 0)"
  by (cases p4; cases p100; cases p400; simp)

lemma year_step_arith:
  fixes A B C :: int
  assumes "A' = A + a" "B' = B + b" "C' = C + c"
  shows "365 * (y - 1969) + A' - B' + C' = (365 * (y - 1970) + A - B + C) + (365 + (a - b + c))"
  using assms by simp

lemma day_from_year_step:
  "day_from_year (y + 1) = day_from_year y + (if leap_year y then 366 else 365)"
proof -
  have p: "(0::int) < 4" "(0::int) < 100" "(0::int) < 400" by simp_all
  have dv: "(4::int) dvd 1968" "(100::int) dvd 1900" "(400::int) dvd 1600" by simp_all
  have e1: "y - 1969 + 1 = y - 1968" "y - 1901 + 1 = y - 1900" "y - 1601 + 1 = y - 1600"
    by simp_all
  have e2: "y + 1 - 1970 = y - 1969" "y + 1 - 1969 = y - 1968" "y + 1 - 1901 = y - 1900"
    "y + 1 - 1601 = y - 1600"
    by simp_all
  have a: "(y - 1968) div 4 = (y - 1969) div 4 + (if y mod 4 = 0 then 1 else 0)"
    by (rule div_step[OF p(1), of "y - 1969", unfolded e1 mod_shift[OF dv(1)]])
  have b: "(y - 1900) div 100 = (y - 1901) div 100 + (if y mod 100 = 0 then 1 else 0)"
    by (rule div_step[OF p(2), of "y - 1901", unfolded e1 mod_shift[OF dv(2)]])
  have c: "(y - 1600) div 400 = (y - 1601) div 400 + (if y mod 400 = 0 then 1 else 0)"
    by (rule div_step[OF p(3), of "y - 1601", unfolded e1 mod_shift[OF dv(3)]])
  have d: "y mod 400 = 0 \<Longrightarrow> y mod 100 = 0" 
    using dvd_trans[of 100 400 y] by (simp add: mod_eq_0_iff_dvd)
  have e: "y mod 100 = 0 \<Longrightarrow> y mod 4 = 0"
    using dvd_trans[of 4 100 y] by (simp add: mod_eq_0_iff_dvd)
  have "day_from_year (y + 1) = day_from_year y +
          (365 + ((if y mod 4 = 0 then 1 else 0) - (if y mod 100 = 0 then 1 else 0)
                   + (if y mod 400 = 0 then 1 else 0)))"
    unfolding day_from_year_def e2 by (rule year_step_arith[OF a b c])
  also have "(if y mod 4 = 0 then 1 else 0) - (if y mod 100 = 0 then 1 else 0)
                   + (if y mod 400 = 0 then 1 else (0::int)) = (if leap_year y then 1 else 0)"
    unfolding leap_year_def by (rule leap_count[OF d e])
  also have "365 + (if leap_year y then 1 else (0::int)) = (if leap_year y then 366 else 365)"
    by (cases "leap_year y") simp_all
  finally show ?thesis .
qed

lemma day_from_year_mono:
  assumes "y1 < y2"
  shows "day_from_year y1 + (if leap_year y1 then 366 else 365) \<le> day_from_year y2"
proof -
  have "day_from_year y1 + (if leap_year y1 then 366 else 365) \<le> day_from_year (y1 + 1 + int n)" for n
  proof (induction n)
    case 0
    then show ?case by (simp add: day_from_year_step)
  next
    case (Suc n)
    have "day_from_year (y1 + 1 + int (Suc n)) = day_from_year ((y1 + 1 + int n) + 1)"
      by (simp add: algebra_simps)
    also have "\<dots> \<ge> day_from_year (y1 + 1 + int n)"
      unfolding day_from_year_step by simp
    finally show ?case using Suc by linarith
  qed
  from this[of "nat (y2 - y1 - 1)"] assms show ?thesis by simp
qed

lemma days_before_month_mono:
  assumes "1 \<le> m1" "m1 < m2"
  shows "days_before_month y m1 + days_in_month y m1 \<le> days_before_month y m2"
proof -
  have "[1..<m1 + (m2 - m1)] = [1..<m1] @ [m1..<m1 + (m2 - m1)]"
    using assms(1) by (rule upt_add_eq_append)
  moreover have "[m1..<m2] = m1 # [Suc m1..<m2]"
    using assms(2) by (rule upt_conv_Cons)
  ultimately have "[1..<m2] = [1..<m1] @ m1 # [Suc m1..<m2]"
    using assms(2) by simp
  then show ?thesis by (simp add: days_before_month_def)
qed

lemma upt_1_13: "[1..<13] = [1,2,3,4,5,6,7,8,9,10,11,12::nat]"
  by (simp add: upt_conv_Cons)

lemma days_before_month_13:
  "days_before_month y 13 = (if leap_year y then 366 else 365)"
  unfolding days_before_month_def upt_1_13 by (simp add: days_in_month_def)

lemma day_in_year_bound:
  assumes "1 \<le> m" "m \<le> 12" "d \<le> days_in_month y m"
  shows "int (days_before_month y m) + int d \<le> (if leap_year y then 366 else 365)"
proof -
  have "days_before_month y m + days_in_month y m \<le> days_before_month y 13"
    using assms by (intro days_before_month_mono) simp_all
  with assms(3) show ?thesis unfolding days_before_month_13 by (auto split: if_splits)
qed

lemma make_day_mono:
  assumes v1: "1 \<le> m1" "m1 \<le> 12" "1 \<le> d1" "d1 \<le> days_in_month y1 m1"
      and v2: "1 \<le> m2" "m2 \<le> 12" "1 \<le> d2" "d2 \<le> days_in_month y2 m2"
      and lt: "y1 < y2 \<or> (y1 = y2 \<and> m1 < m2)"
  shows "make_day (y1, m1, d1) < make_day (y2, m2, d2)"
proof -
  from lt consider "y1 < y2" | "y1 = y2" "m1 < m2" by blast
  then show ?thesis
  proof cases
    case 1
    from day_from_year_mono[OF 1] day_in_year_bound[OF v1(1,2,4)] v2(3)
    show ?thesis by (simp split: if_splits)
  next
    case 2
    from days_before_month_mono[OF v1(1) 2(2), of y1] v1(4) v2(3) 2(1)
    show ?thesis by simp
  qed
qed

lemma parse_date_valid:
  assumes "parse_date s = Some (y, m, d)"
  shows "1 \<le> m \<and> m \<le> 12 \<and> 1 \<le> d \<and> d \<le> days_in_month y m"
  using assms unfolding parse_date_def Let_def
  apply (simp only: split: if_splits)
  by (simp_all only: option.simps prod.inject)

lemma insert_cmp_insort_key:
  fixes f :: "'a \<Rightarrow> 'k::linorder"
  assumes "\<forall>y\<in>set ys. (cmp x y \<le> 0) = (f x \<le> f y)"
  shows "insert_cmp cmp x ys = insort_key f x ys"
  using assms by (induction ys) simp_all

lemma array_sort_sort_key:
  fixes f :: "'a \<Rightarrow> 'k::linorder"
  assumes "\<forall>x\<in>set xs. \<forall>y\<in>set xs. (cmp x y \<le> 0) = (f x \<le> f y)"
  shows "array_sort cmp xs = sort_key f xs"
  using assms
proof (induction xs)
  case Nil
  then show ?case by (simp add: array_sort_def)
next
  case (Cons x xs)
  then have IH: "array_sort cmp xs = sort_key f xs" by simp
  have "insert_cmp cmp x (sort_key f xs) = insort_key f x (sort_key f xs)"
    by (rule insert_cmp_insort_key) (use Cons.prems in simp)
  then show ?case using IH by (simp add: array_sort_def)
qed

lemma sorted_wrt_distinct_strengthen:
  assumes "sorted_wrt P xs" "distinct xs"
      and "\<And>a b. a \<in> set xs \<Longrightarrow> b \<in> set xs \<Longrightarrow> a \<noteq> b \<Longrightarrow> P a b \<Longrightarrow> Q a b"
  shows "sorted_wrt Q xs"
  using assms by (induction xs) auto

lemma getMonthYear_same_month:
  assumes "parse_date s1 = Some (y, m, d1)" "parse_date s2 = Some (y, m, d2)"
  shows "getMonthYear s1 = getMonthYear s2"
  using assms by (simp add: getMonthYear_def)

lemma groups_of_members:
  assumes "e \<in> set (groups_of ts)"
  shows "\<exists>t rest. transactions (snd e) = t # rest \<and> t \<in> set ts \<and> getMonthYear (date t) = fst e"
proof -
  let ?key = "\<lambda>u. getMonthYear (date u)"
  from assms obtain k where k: "k \<in> ?key ` set ts"
    and e: "e = (k, \<lparr>transactions = filter (\<lambda>u. ?key u = k) ts,
                     total = sum_list (map signed_amount (filter (\<lambda>u. ?key u = k) ts))\<rparr>)"
    unfolding groups_of_closed by auto
  from k have ne: "filter (\<lambda>u. ?key u = k) ts \<noteq> []"
    by (auto simp: filter_empty_conv)
  then obtain t rest where tr: "filter (\<lambda>u. ?key u = k) ts = t # rest"
    by (cases "filter (\<lambda>u. ?key u = k) ts") auto
  then have "t \<in> set (filter (\<lambda>u. ?key u = k) ts)" by simp
  then have "t \<in> set ts" "?key t = k" by auto
  with tr e show ?thesis by simp
qed

lemma groups_of_distinct: "distinct (map fst (groups_of ts))"
  unfolding groups_of_closed by (simp add: comp_def)

lemma mset_insert_cmp: "mset (insert_cmp cmp x ys) = add_mset x (mset ys)"
  by (induction ys) simp_all

lemma mset_array_sort: "mset (array_sort cmp xs) = mset xs"
  by (induction xs) (simp_all add: array_sort_def mset_insert_cmp)

lemmas date_eval =
  parse_date_def is_digit_def digits_val_def digit_val_def days_in_month_def leap_year_def

lemma ledger_dates:
  "parse_date ''2024-03-01'' = Some (2024, 3, 1)"
  "parse_date ''2024-03-02'' = Some (2024, 3, 2)"
  "parse_date ''2024-04-05'' = Some (2024, 4, 5)"
  by (simp_all add: date_eval)

lemma show_nat_2024: "show_nat 2024 = ''2024''"
  by (simp add: show_nat.simps digit_char_def)

lemma ledger_months:
  "getMonthYear ''2024-03-01'' = ''March 2024''"
  "getMonthYear ''2024-03-02'' = ''March 2024''"
  "getMonthYear ''2024-04-05'' = ''April 2024''"
  by (simp_all add: getMonthYear_def ledger_dates show_nat_2024 month_name_def)

lemma day_from_year_2024: "day_from_year 2024 = 19723"
  by (simp add: day_from_year_def)

lemma ledger_times:
  "getTime ''2024-03-01'' = Some (86400000 * 19783)"
  "getTime ''2024-03-02'' = Some (86400000 * 19784)"
  "getTime ''2024-04-05'' = Some (86400000 * 19818)"
  by (simp_all add: getTime_def ledger_dates day_from_year_2024 days_before_month_def
        days_in_month_def leap_year_def upt_conv_Cons)

lemma ledger_groups:
  "groups_of ledger =
     [(''March 2024'',
       \<lparr>transactions = [tx 1 ''2024-03-01'' 1000 Income ''Salary'',
                        tx 2 ''2024-03-02'' 400 Expense ''Rent'',
                        tx 3 ''2024-03-02'' 200 Saved ''Savings''], total = 400\<rparr>),
      (''April 2024'',
       \<lparr>transactions = [tx 4 ''2024-04-05'' 50 Expense ''Lunch''], total = - 50\<rparr>)]"
  by (simp add: groups_of_def ledger_months signed_amount_def)

lemma ledger_valid: "list_all (\<lambda>t. parse_date (date t) \<noteq> None) ledger"
  by (simp add: ledger_dates)

section \<open>Month labels\<close>

lemma split_at_unique:
  assumes "xs @ c # ys = xs' @ c # ys'" "c \<notin> set xs" "c \<notin> set xs'"
  shows "xs = xs' \<and> ys = ys'"
proof -
  have tw: "c \<notin> set zs \<Longrightarrow> takeWhile (\<lambda>x. x \<noteq> c) (zs @ c # ws) = zs" for zs ws
    by (induction zs) auto
  have "takeWhile (\<lambda>x. x \<noteq> c) (xs @ c # ys) = xs" using assms(2) by (rule tw)
  moreover have "takeWhile (\<lambda>x. x \<noteq> c) (xs' @ c # ys') = xs'" using assms(3) by (rule tw)
  ultimately have "xs = xs'" using assms(1) by simp
  with assms(1) show ?thesis by simp
qed

lemma month_cases:
  fixes m :: nat
  assumes "1 \<le> m" "m \<le> 12"
  shows "m = 1 \<or> m = 2 \<or> m = 3 \<or> m = 4 \<or> m = 5 \<or> m = 6 \<or> m = 7 \<or> m = 8 \<or> m = 9 \<or> m = 10
         \<or> m = 11 \<or> m = 12"
  using assms by arith

lemma month_name_no_space:
  assumes "1 \<le> m" "m \<le> 12"
  shows "CHR '' '' \<notin> set (month_name m)"
  using month_cases[OF assms] by (elim disjE) (simp_all add: month_name_def)

lemma month_name_first_three:
  assumes "1 \<le> m" "m \<le> 12"
  shows "take 3 (month_name m) =
     [''Jan'', ''Feb'', ''Mar'', ''Apr'', ''May'', ''Jun'', ''Jul'', ''Aug'', ''Sep'',
      ''Oct'', ''Nov'', ''Dec''] ! (m - 1)"
  using month_cases[OF assms] by (elim disjE) (simp_all add: month_name_def)

lemma digit_char_inj:
  assumes "a < 10" "b < 10" "digit_char a = digit_char b"
  shows "a = b"
proof -
  have h: "(of_char (digit_char d) :: nat) = 48 + d" if "d < 10" for d
  proof -
    from that have "d = 0 \<or> d = 1 \<or> d = 2 \<or> d = 3 \<or> d = 4 \<or> d = 5 \<or> d = 6 \<or> d = 7 \<or> d = 8 \<or> d = 9"
      by arith
    then show ?thesis by (elim disjE) (simp_all add: digit_char_def)
  qed
  have "48 + a = (of_char (digit_char a) :: nat)" by (simp only: h[OF assms(1)])
  also have "\<dots> = of_char (digit_char b)" by (simp only: assms(3))
  also have "\<dots> = 48 + b" by (rule h[OF assms(2)])
  finally show ?thesis by (simp only: add_left_cancel)
qed

lemma show_nat_nonempty: "show_nat n \<noteq> []"
  by (subst show_nat.simps) simp

lemma show_nat_inj: "show_nat a = show_nat b \<Longrightarrow> a = b"
proof (induction a arbitrary: b rule: show_nat.induct)
  case (1 a)
  show ?case
  proof (cases "a < 10")
    case True
    show ?thesis
    proof (cases "b < 10")
      case b: True
      from "1.prems" True b have "digit_char a = digit_char b"
        by (simp add: show_nat.simps[of a] show_nat.simps[of b])
      with digit_char_inj[OF True b] show ?thesis by simp
    next
      case b: False
      from "1.prems" True b show_nat_nonempty[of "b div 10"] show ?thesis
        by (simp add: show_nat.simps[of a] show_nat.simps[of b])
    qed
  next
    case False
    show ?thesis
    proof (cases "b < 10")
      case b: True
      from "1.prems" False b show_nat_nonempty[of "a div 10"] show ?thesis
        by (simp add: show_nat.simps[of a] show_nat.simps[of b])
    next
      case b: False
      from "1.prems" False b have e: "show_nat (a div 10) = show_nat (b div 10)"
        "digit_char (a mod 10) = digit_char (b mod 10)"
        by (simp_all add: show_nat.simps[of a] show_nat.simps[of b])
      from "1.IH"[OF False e(1)] have "a div 10 = b div 10" .
      moreover from e(2) have "a mod 10 = b mod 10"
        by (intro digit_char_inj) simp_all
      ultimately show ?thesis by (metis div_mult_mod_eq)
    qed
  qed
qed

lemma parse_date_year_nonneg:
  assumes "parse_date s = Some (y, m, d)"
  shows "0 \<le> y"
proof -
  from assms have "y = int (digits_val (take 4 s))"
    unfolding parse_date_def Let_def
    apply (simp only: split: if_splits)
    by (simp_all only: option.simps prod.inject)
  then show ?thesis by simp
qed

lemma month_name_inj:
  assumes "1 \<le> m1" "m1 \<le> 12" "1 \<le> m2" "m2 \<le> 12" "month_name m1 = month_name m2"
  shows "m1 = m2"
proof -
  let ?tab = "[''Jan'', ''Feb'', ''Mar'', ''Apr'', ''May'', ''Jun'', ''Jul'', ''Aug'', ''Sep'',
      ''Oct'', ''Nov'', ''Dec'']"
  have d: "distinct ?tab" by simp
  have "?tab ! (m1 - 1) = ?tab ! (m2 - 1)"
    using month_name_first_three[OF assms(1,2)] month_name_first_three[OF assms(3,4)] assms(5)
    by simp
  moreover have "m1 - 1 < length ?tab" "m2 - 1 < length ?tab" using assms by simp_all
  ultimately have "m1 - 1 = m2 - 1" using d by (simp only: nth_eq_iff_index_eq)
  with assms show ?thesis by simp
qed

lemma getMonthYear_inj:
  assumes p1: "parse_date s1 = Some (y1, m1, d1)" and p2: "parse_date s2 = Some (y2, m2, d2)"
      and eq: "getMonthYear s1 = getMonthYear s2"
  shows "y1 = y2 \<and> m1 = m2"
proof -
  note v1 = parse_date_valid[OF p1] and v2 = parse_date_valid[OF p2]
  from eq have "month_name m1 @ CHR '' '' # show_nat (nat y1) = month_name m2 @ CHR '' '' # show_nat (nat y2)"
    by (simp add: getMonthYear_def p1 p2)
  from split_at_unique[OF this] month_name_no_space v1 v2
  have "month_name m1 = month_name m2" "show_nat (nat y1) = show_nat (nat y2)" by simp_all
  then have "m1 = m2" "nat y1 = nat y2"
    using month_name_inj v1 v2 show_nat_inj by blast+
  with parse_date_year_nonneg[OF p1] parse_date_year_nonneg[OF p2] show ?thesis by simp
qed



lemma groups_of_transactions:
  assumes "e \<in> set (groups_of ts)"
  shows "transactions (snd e) = filter (\<lambda>t. getMonthYear (date t) = fst e) ts"
  using assms unfolding groups_of_closed by auto

section \<open>Month grouping (wallet page)\<close>



text \<open>
  Claim C5. Whenever every transaction carries a calendar date, and whatever the order of
  the input list, the entries produced by \<open>groupedTransactions\<close> are in descending order
  of the date of each group's first-encountered member, and an earlier entry's first
  member is dated in a strictly later month than a later entry's, as is every member of
  the earlier entry compared with every member of the later one: most recent month
  first. This holds with all months shown and with the current-month filter.
\<close>

theorem groups_most_recent_first:
  assumes valid: "\<forall>t\<in>set ts. parse_date (date t) \<noteq> None"
  shows "sorted_wrt (\<lambda>a b. not_before (first_time (snd a)) (first_time (snd b))
                         \<and> later_month (first_member_date a) (first_member_date b)
                         \<and> (\<forall>ta\<in>set (transactions (snd a)). \<forall>tb\<in>set (transactions (snd b)).
                               later_month (parse_date (date ta)) (parse_date (date tb))))
           (groupedTransactions ts showAll now)"
proof -
  let ?gs = "groups_of ts"
  define f :: "string \<times> MonthGroup \<Rightarrow> int" where "f e = - the (first_time (snd e))" for e
  let ?R = "\<lambda>a b. not_before (first_time (snd a)) (first_time (snd b))
                         \<and> later_month (first_member_date a) (first_member_date b)
                         \<and> (\<forall>ta\<in>set (transactions (snd a)). \<forall>tb\<in>set (transactions (snd b)).
                               later_month (parse_date (date ta)) (parse_date (date tb)))"
  have member: "\<exists>d'. parse_date (date u) = Some (y, m, d')"
    if e: "e \<in> set ?gs" and hd: "transactions (snd e) = t # rest"
      and p: "parse_date (date t) = Some (y, m, d)" and u: "u \<in> set (transactions (snd e))"
    for e t rest y m d u
  proof -
    have tr: "transactions (snd e) = filter (\<lambda>t. getMonthYear (date t) = fst e) ts"
      by (rule groups_of_transactions[OF e])
    from hd tr have "t \<in> set (filter (\<lambda>t. getMonthYear (date t) = fst e) ts)" by simp
    then have kt: "getMonthYear (date t) = fst e" by simp
    from u tr have uu: "u \<in> set ts" "getMonthYear (date u) = fst e" by simp_all
    with valid obtain y' m' d' where pu: "parse_date (date u) = Some (y', m', d')"
      by (metis option.exhaust prod_cases3)
    from getMonthYear_inj[OF p pu] kt uu(2) have "y = y' \<and> m = m'" by simp
    with pu show ?thesis by simp
  qed
  have first: "\<exists>t rest y m d. transactions (snd e) = t # rest \<and> getMonthYear (date t) = fst e
                 \<and> parse_date (date t) = Some (y, m, d)" if "e \<in> set ?gs" for e
  proof -
    from groups_of_members[OF that] obtain t rest where
      t: "transactions (snd e) = t # rest" "t \<in> set ts" "getMonthYear (date t) = fst e" by blast
    with valid obtain y m d where "parse_date (date t) = Some (y, m, d)"
      by (metis option.exhaust prod_cases3)
    with t show ?thesis by blast
  qed
  have cmp: "(cmp_entries a b \<le> 0) = (f a \<le> f b)" if "a \<in> set ?gs" "b \<in> set ?gs" for a b
  proof -
    from first[OF that(1)] first[OF that(2)] obtain x y where
      "first_time (snd a) = Some x" "first_time (snd b) = Some y"
      by (auto simp: first_time_def getTime_def)
    then show ?thesis by (simp add: cmp_entries_def f_def)
  qed
  have sort_eq: "array_sort cmp_entries ?gs = sort_key f ?gs"
    by (rule array_sort_sort_key) (use cmp in blast)
  have s1: "sorted_wrt (\<lambda>a b. f a \<le> f b) (sort_key f ?gs)"
    using sorted_sort_key[of f ?gs] by (simp add: sorted_map)
  have dist: "distinct (sort_key f ?gs)"
    using groups_of_distinct[of ts] by (simp add: distinct_map)
  have strengthen: "?R a b" if a: "a \<in> set (sort_key f ?gs)" and b: "b \<in> set (sort_key f ?gs)"
    and ne: "a \<noteq> b" and le: "f a \<le> f b" for a b
  proof -
    from a b have a': "a \<in> set ?gs" and b': "b \<in> set ?gs" by simp_all
    from first[OF a'] obtain ta ra ya ma da where
      A: "transactions (snd a) = ta # ra" "getMonthYear (date ta) = fst a"
         "parse_date (date ta) = Some (ya, ma, da)" by blast
    from first[OF b'] obtain tb rb yb mb db where
      B: "transactions (snd b) = tb # rb" "getMonthYear (date tb) = fst b"
         "parse_date (date tb) = Some (yb, mb, db)" by blast
    have keys: "fst a \<noteq> fst b"
      using groups_of_distinct[of ts] a' b' ne by (meson distinct_map inj_onD)
    have fa: "first_time (snd a) = Some (86400000 * make_day (ya, ma, da))"
      and fb: "first_time (snd b) = Some (86400000 * make_day (yb, mb, db))"
      using A B by (simp_all add: first_time_def getTime_def)
    from le have days: "make_day (yb, mb, db) \<le> make_day (ya, ma, da)"
      unfolding f_def fa fb by simp
    have "\<not> (ya < yb \<or> (ya = yb \<and> ma < mb))"
    proof
      assume "ya < yb \<or> (ya = yb \<and> ma < mb)"
      from make_day_mono[OF _ _ _ _ _ _ _ _ this, of da db]
        parse_date_valid[OF A(3)] parse_date_valid[OF B(3)]
      have "make_day (ya, ma, da) < make_day (yb, mb, db)" by blast
      with days show False by simp
    qed
    moreover have "\<not> (ya = yb \<and> ma = mb)"
    proof
      assume "ya = yb \<and> ma = mb"
      with A(3) B(3) have "getMonthYear (date ta) = getMonthYear (date tb)"
        by (simp add: getMonthYear_def)
      with A(2) B(2) keys show False by simp
    qed
    ultimately have later: "yb < ya \<or> (yb = ya \<and> mb < ma)" by auto
    have "later_month (parse_date (date ua)) (parse_date (date ub))"
      if "ua \<in> set (transactions (snd a))" "ub \<in> set (transactions (snd b))" for ua ub
    proof -
      from member[OF a' A(1) A(3) that(1)] member[OF b' B(1) B(3) that(2)] later
      show ?thesis by (auto simp: later_month_def)
    qed
    moreover from later have "later_month (first_member_date a) (first_member_date b)"
      using A B by (simp add: later_month_def first_member_date_def)
    moreover have "not_before (first_time (snd a)) (first_time (snd b))"
      unfolding fa fb using days by (simp add: not_before_def)
    ultimately show ?thesis by simp
  qed
  have sorted_all: "sorted_wrt ?R (array_sort cmp_entries ?gs)"
    unfolding sort_eq
    by (rule sorted_wrt_distinct_strengthen[OF s1 dist]) (rule strengthen)
  show ?thesis
    unfolding groupedTransactions_def Let_def
    using sorted_all by (simp add: sorted_wrt_filter)
qed

theorem groups_most_recent_first_witness:
  "list_all (\<lambda>t. parse_date (date t) \<noteq> None) ledger
   \<and> map fst (groups_of ledger) = [''March 2024'', ''April 2024'']
   \<and> map fst (groupedTransactions ledger True april10) = [''April 2024'', ''March 2024'']
   \<and> sorted_wrt (\<lambda>a b. not_before (first_time (snd a)) (first_time (snd b))
                         \<and> later_month (first_member_date a) (first_member_date b)
                         \<and> (\<forall>ta\<in>set (transactions (snd a)). \<forall>tb\<in>set (transactions (snd b)).
                               later_month (parse_date (date ta)) (parse_date (date tb))))
         (groupedTransactions ledger True april10)"
proof -
  have v: "\<forall>t\<in>set ledger. parse_date (date t) \<noteq> None"
    using ledger_valid unfolding list_all_iff .
  have k: "map fst (groupedTransactions ledger True april10) = [''April 2024'', ''March 2024'']"
    by (simp add: groupedTransactions_def ledger_groups array_sort_def cmp_entries_def
          first_time_def ledger_times)
  from groups_most_recent_first[OF v, of True april10] k ledger_valid show ?thesis
    unfolding ledger_groups by simp
qed

section \<open>Lemmas on the data tools page\<close>













lemma localeCompare_types:
  "(localeCompare (type_str a) (type_str b) \<le> 0) = (type_rank a \<le> type_rank b)"
  "(0 \<le> localeCompare (type_str a) (type_str b)) = (type_rank b \<le> type_rank a)"
  "(localeCompare (type_str a) (type_str b) = 0) = (type_rank a = type_rank b)"
  by (cases a; cases b; simp add: localeCompare_def)+

lemma comparison_key:
  assumes "field = SortDate \<longrightarrow> parse_date (date a) \<noteq> None \<and> parse_date (date b) \<noteq> None"
  shows "(comparison field a b \<le> 0) = (sort_key_of field a \<le> sort_key_of field b)"
    and "(0 \<le> comparison field a b) = (sort_key_of field b \<le> sort_key_of field a)"
    and "(comparison field a b = 0) = (sort_key_of field a = sort_key_of field b)"
  using assms
  by (cases field; auto simp: comparison_def sort_key_of_def getTime_def localeCompare_types)+

lemma compare_tx_key:
  assumes "field = SortDate \<longrightarrow> parse_date (date a) \<noteq> None \<and> parse_date (date b) \<noteq> None"
  shows "(compare_tx field Asc a b \<le> 0) = (sort_key_of field a \<le> sort_key_of field b)"
    and "(compare_tx field Desc a b \<le> 0) = (- sort_key_of field a \<le> - sort_key_of field b)"
    and "(compare_tx field order a b = 0) = (sort_key_of field a = sort_key_of field b)"
  using comparison_key[OF assms] by (simp_all add: compare_tx_def)

lemma array_sort_tx:
  assumes "field = SortDate \<longrightarrow> (\<forall>t\<in>set xs. parse_date (date t) \<noteq> None)"
  shows "array_sort (compare_tx field Asc) xs = sort_key (sort_key_of field) xs"
    and "array_sort (compare_tx field Desc) xs = sort_key (\<lambda>t. - sort_key_of field t) xs"
proof -
  have v: "field = SortDate \<longrightarrow> parse_date (date a) \<noteq> None \<and> parse_date (date b) \<noteq> None"
    if "a \<in> set xs" "b \<in> set xs" for a b
    using assms that by blast
  show "array_sort (compare_tx field Asc) xs = sort_key (sort_key_of field) xs"
    by (rule array_sort_sort_key) (use compare_tx_key(1)[OF v] in blast)
  show "array_sort (compare_tx field Desc) xs = sort_key (\<lambda>t. - sort_key_of field t) xs"
    by (rule array_sort_sort_key) (use compare_tx_key(2)[OF v] in blast)
qed

lemma array_sort_tx_stable:
  assumes v: "field = SortDate \<longrightarrow> (\<forall>t\<in>set xs. parse_date (date t) \<noteq> None)"
  shows "filter (\<lambda>u. sort_key_of field u = k) (array_sort (compare_tx field order) xs)
       = filter (\<lambda>u. sort_key_of field u = k) xs"
proof (cases order)
  case Asc
  then show ?thesis unfolding Asc array_sort_tx(1)[OF v] by (simp add: sort_key_stable)
next
  case Desc
  have "filter (\<lambda>u. - sort_key_of field u = - k) (sort_key (\<lambda>t. - sort_key_of field t) xs)
      = filter (\<lambda>u. - sort_key_of field u = - k) xs"
    by (rule sort_key_stable)
  then show ?thesis unfolding Desc array_sort_tx(2)[OF v] by simp
qed

lemma array_sort_tx_sorted:
  assumes v: "field = SortDate \<longrightarrow> (\<forall>t\<in>set xs. parse_date (date t) \<noteq> None)"
  shows "sorted_wrt (\<lambda>a b. compare_tx field order a b \<le> 0) (array_sort (compare_tx field order) xs)"
proof -
  have vv: "field = SortDate \<longrightarrow> parse_date (date a) \<noteq> None \<and> parse_date (date b) \<noteq> None"
    if "a \<in> set xs" "b \<in> set xs" for a b
    using assms that by blast
  show ?thesis
  proof (cases order)
    case Asc
    have "sorted_wrt (\<lambda>a b. sort_key_of field a \<le> sort_key_of field b) (sort_key (sort_key_of field) xs)"
      using sorted_sort_key[of "sort_key_of field" xs] by (simp add: sorted_map)
    then show ?thesis unfolding Asc array_sort_tx(1)[OF v]
      by (rule sorted_wrt_mono_rel[rotated]) (use compare_tx_key(1)[OF vv] in simp)
  next
    case Desc
    have "sorted_wrt (\<lambda>a b. - sort_key_of field a \<le> - sort_key_of field b)
            (sort_key (\<lambda>t. - sort_key_of field t) xs)"
      using sorted_sort_key[of "\<lambda>t. - sort_key_of field t" xs] by (simp add: sorted_map)
    then show ?thesis unfolding Desc array_sort_tx(2)[OF v]
      by (rule sorted_wrt_mono_rel[rotated]) (use compare_tx_key(2)[OF vv] in simp)
  qed
qed

lemma sort_key_neg_rev:
  fixes k :: "'a \<Rightarrow> real"
  assumes "distinct (map k xs)"
  shows "sort_key (\<lambda>t. - k t) xs = rev (sort_key k xs)"
proof (rule sort_key_inj_key_eq)
  show "mset xs = mset (rev (sort_key k xs))" by simp
  from assms have "inj_on k (set xs)" by (simp add: distinct_map)
  then show "inj_on (\<lambda>t. - k t) (set xs)"
    by (auto simp: inj_on_def)
  have "sorted (map k (sort_key k xs))" by (rule sorted_sort_key)
  then have "sorted_wrt (\<lambda>a b. k a \<le> k b) (sort_key k xs)" by (simp add: sorted_map)
  then have "sorted_wrt (\<lambda>a b. - k a \<le> - k b) (rev (sort_key k xs))"
    by (simp add: sorted_wrt_rev)
  then show "sorted (map (\<lambda>t. - k t) (rev (sort_key k xs)))"
    by (simp add: sorted_map)
qed

lemma no_ties_distinct:
  assumes v: "field = SortDate \<longrightarrow> (\<forall>t\<in>set xs. parse_date (date t) \<noteq> None)"
      and nt: "\<forall>i j. i < j \<longrightarrow> j < length xs \<longrightarrow> compare_tx field order (xs ! i) (xs ! j) \<noteq> 0"
  shows "distinct (map (sort_key_of field) xs)"
proof -
  have ne: "sort_key_of field (xs ! i) \<noteq> sort_key_of field (xs ! j)" if "i < j" "j < length xs" for i j
  proof -
    have "field = SortDate \<longrightarrow> parse_date (date (xs ! i)) \<noteq> None \<and> parse_date (date (xs ! j)) \<noteq> None"
      using v that by simp
    from compare_tx_key(3)[OF this, of order] nt that show ?thesis by blast
  qed
  show ?thesis
    unfolding distinct_conv_nth
  proof (intro allI impI)
    fix i j assume "i < length (map (sort_key_of field) xs)" "j < length (map (sort_key_of field) xs)" "i \<noteq> j"
    then show "map (sort_key_of field) xs ! i \<noteq> map (sort_key_of field) xs ! j"
      using ne[of i j] ne[of j i] by (cases "i < j") (auto simp: not_less)
  qed
qed

lemma applyFilters_subset: "set (applyFilters f now ts) \<subseteq> set ts"
  unfolding applyFilters_def Let_def by (simp only: split: if_splits) auto

lemma applyFilters_sortOrder:
  "applyFilters (f\<lparr>sortOrder := ord\<rparr>) now ts = applyFilters f now ts"
  by (simp add: applyFilters_def)

lemma ledger_all: "applyFilters (by_amount ord) april10 ledger = ledger"
  by (simp add: applyFilters_def)

lemma ledger_by_amount:
  "map tx_id (filteredTransactions (by_amount Asc) april10 ledger) = [4, 3, 2, 1]"
  "map tx_id (filteredTransactions (by_amount Desc) april10 ledger) = [1, 2, 3, 4]"
  by (simp_all add: filteredTransactions_def ledger_all array_sort_def compare_tx_def comparison_def)





section \<open>Insights (data tools page)\<close>









section \<open>Sorting (data tools page)\<close>

text \<open>
  Claim C7. For each sort field and order (the dates being calendar dates when sorting by
  date) the sorted view is a permutation of the filtered records, ordered by the
  comparator, and stable: for every record, the records that compare equal to it stand in
  the view in their original relative order. When no two records of the filtered list
  compare equal, the descending view is the exact reverse of the ascending view, and
  sorting the ascending view in descending order reverses it.
\<close>

theorem sorting_stable:
  assumes v: "sortField f = SortDate \<longrightarrow> (\<forall>t\<in>set ts. parse_date (date t) \<noteq> None)"
  shows "mset (filteredTransactions f now ts) = mset (applyFilters f now ts)
     \<and> sorted_wrt (\<lambda>a b. compare_tx (sortField f) (sortOrder f) a b \<le> 0)
         (filteredTransactions f now ts)
     \<and> (\<forall>t\<in>set (applyFilters f now ts).
          filter (\<lambda>u. compare_tx (sortField f) (sortOrder f) t u = 0) (filteredTransactions f now ts)
        = filter (\<lambda>u. compare_tx (sortField f) (sortOrder f) t u = 0) (applyFilters f now ts))
     \<and> ((\<forall>i j. i < j \<longrightarrow> j < length (applyFilters f now ts) \<longrightarrow>
            compare_tx (sortField f) (sortOrder f)
              (applyFilters f now ts ! i) (applyFilters f now ts ! j) \<noteq> 0)
         \<longrightarrow> filteredTransactions (f\<lparr>sortOrder := Desc\<rparr>) now ts
               = rev (filteredTransactions (f\<lparr>sortOrder := Asc\<rparr>) now ts)
           \<and> array_sort (compare_tx (sortField f) Desc)
                 (filteredTransactions (f\<lparr>sortOrder := Asc\<rparr>) now ts)
               = rev (filteredTransactions (f\<lparr>sortOrder := Asc\<rparr>) now ts))"
proof -
  let ?xs = "applyFilters f now ts"
  let ?fd = "sortField f"
  let ?cmp = "compare_tx ?fd (sortOrder f)"
  let ?key = "sort_key_of ?fd"
  have vx: "?fd = SortDate \<longrightarrow> (\<forall>t\<in>set ?xs. parse_date (date t) \<noteq> None)"
    using v applyFilters_subset[of f now ts] by blast
  have 1: "mset (filteredTransactions f now ts) = mset ?xs"
    by (simp add: filteredTransactions_def mset_array_sort)
  have 2: "sorted_wrt (\<lambda>a b. ?cmp a b \<le> 0) (filteredTransactions f now ts)"
    unfolding filteredTransactions_def by (rule array_sort_tx_sorted[OF vx])
  have 3: "filter (\<lambda>u. ?cmp t u = 0) (filteredTransactions f now ts) = filter (\<lambda>u. ?cmp t u = 0) ?xs"
    if t: "t \<in> set ?xs" for t
  proof -
    have eq: "(?cmp t u = 0) = (?key u = ?key t)" if "u \<in> set ?xs" for u
    proof -
      have "?fd = SortDate \<longrightarrow> parse_date (date t) \<noteq> None \<and> parse_date (date u) \<noteq> None"
        using vx t that by blast
      from compare_tx_key(3)[OF this, of "sortOrder f"] show ?thesis by auto
    qed
    have set_eq: "set (filteredTransactions f now ts) = set ?xs"
      using 1 by (rule mset_eq_setD)
    have "filter (\<lambda>u. ?cmp t u = 0) (filteredTransactions f now ts)
        = filter (\<lambda>u. ?key u = ?key t) (filteredTransactions f now ts)"
      by (rule filter_cong[OF refl]) (use eq set_eq in blast)
    also have "\<dots> = filter (\<lambda>u. ?key u = ?key t) ?xs"
      unfolding filteredTransactions_def by (rule array_sort_tx_stable[OF vx])
    also have "\<dots> = filter (\<lambda>u. ?cmp t u = 0) ?xs"
      by (rule filter_cong[OF refl]) (use eq in blast)
    finally show ?thesis .
  qed
  have 4: "filteredTransactions (f\<lparr>sortOrder := Desc\<rparr>) now ts
               = rev (filteredTransactions (f\<lparr>sortOrder := Asc\<rparr>) now ts)
           \<and> array_sort (compare_tx ?fd Desc) (filteredTransactions (f\<lparr>sortOrder := Asc\<rparr>) now ts)
               = rev (filteredTransactions (f\<lparr>sortOrder := Asc\<rparr>) now ts)"
    if nt: "\<forall>i j. i < j \<longrightarrow> j < length ?xs \<longrightarrow> ?cmp (?xs ! i) (?xs ! j) \<noteq> 0"
  proof -
    have d: "distinct (map ?key ?xs)" by (rule no_ties_distinct[OF vx nt])
    have asc: "filteredTransactions (f\<lparr>sortOrder := Asc\<rparr>) now ts = sort_key ?key ?xs"
      by (simp add: filteredTransactions_def applyFilters_sortOrder array_sort_tx(1)[OF vx])
    have desc: "filteredTransactions (f\<lparr>sortOrder := Desc\<rparr>) now ts = sort_key (\<lambda>t. - ?key t) ?xs"
      by (simp add: filteredTransactions_def applyFilters_sortOrder array_sort_tx(2)[OF vx])
    have vs: "?fd = SortDate \<longrightarrow> (\<forall>t\<in>set (sort_key ?key ?xs). parse_date (date t) \<noteq> None)"
      using vx by simp
    have d': "distinct (map ?key (sort_key ?key ?xs))"
      using d by (metis distinct_map distinct_sort set_sort)
    have "sort_key (\<lambda>t. - ?key t) (sort_key ?key ?xs) = rev (sort_key ?key (sort_key ?key ?xs))"
      by (rule sort_key_neg_rev[OF d'])
    also have "sort_key ?key (sort_key ?key ?xs) = sort_key ?key ?xs"
      by (rule sort_key_id_if_sorted) (rule sorted_sort_key)
    finally have re: "sort_key (\<lambda>t. - ?key t) (sort_key ?key ?xs) = rev (sort_key ?key ?xs)" .
    show ?thesis
      unfolding asc desc array_sort_tx(2)[OF vs] re
      using sort_key_neg_rev[OF d] by simp
  qed
  from 1 2 3 4 show ?thesis by blast
qed

lemma ledger_by_date:
  "map tx_id (filteredTransactions (by_date Desc) april10 ledger)
     = [4, 2, 3, 1]"
  "map tx_id (filteredTransactions (by_date Asc) april10 ledger)
     = [1, 2, 3, 4]"
  by (simp_all add: filteredTransactions_def applyFilters_def array_sort_def compare_tx_def
        comparison_def ledger_times)

theorem sorting_stable_witness:
  "map tx_id (filteredTransactions (by_amount Asc) april10 ledger) = [4, 3, 2, 1]
   \<and> map tx_id (filteredTransactions (by_amount Desc) april10 ledger) = [1, 2, 3, 4]
   \<and> filteredTransactions (by_amount Desc) april10 ledger
       = rev (filteredTransactions (by_amount Asc) april10 ledger)
   \<and> mset (filteredTransactions (by_amount Asc) april10 ledger) = mset ledger
   \<and> map tx_id (filteredTransactions (by_date Desc) april10 ledger)
       = [4, 2, 3, 1]
   \<and> map tx_id (filteredTransactions (by_date Asc) april10 ledger)
       = [1, 2, 3, 4]
   \<and> filter (\<lambda>u. compare_tx SortDate Desc (tx 3 ''2024-03-02'' 200 Saved ''Savings'') u = 0)
         (filteredTransactions (by_date Desc) april10 ledger)
       = [tx 2 ''2024-03-02'' 400 Expense ''Rent'', tx 3 ''2024-03-02'' 200 Saved ''Savings'']"
proof -
  have nt: "\<forall>i j. i < j \<longrightarrow> j < length (applyFilters (by_amount Asc) april10 ledger) \<longrightarrow>
            compare_tx (sortField (by_amount Asc)) (sortOrder (by_amount Asc))
              (applyFilters (by_amount Asc) april10 ledger ! i)
              (applyFilters (by_amount Asc) april10 ledger ! j) \<noteq> 0"
  proof -
    have "sorted_wrt (\<lambda>a b. compare_tx SortAmount Asc a b \<noteq> 0) ledger"
      by (simp add: compare_tx_def comparison_def)
    then show ?thesis
      unfolding sorted_wrt_iff_nth_less ledger_all by simp
  qed
  have v: "sortField (by_amount Asc) = SortDate \<longrightarrow> (\<forall>t\<in>set ledger. parse_date (date t) \<noteq> None)"
    by simp
  have a: "filteredTransactions (by_amount Desc) april10 ledger
       = rev (filteredTransactions (by_amount Asc) april10 ledger)
     \<and> mset (filteredTransactions (by_amount Asc) april10 ledger) = mset ledger"
    using sorting_stable[OF v, of april10] nt by (simp add: ledger_all)
  have vd: "sortField (by_date Desc) = SortDate \<longrightarrow>
            (\<forall>t\<in>set ledger. parse_date (date t) \<noteq> None)"
    using ledger_valid by (simp add: list_all_iff)
  have all: "applyFilters (by_date Desc) april10 ledger = ledger"
    by (simp add: applyFilters_def)
  have b: "filter (\<lambda>u. compare_tx SortDate Desc (tx 3 ''2024-03-02'' 200 Saved ''Savings'') u = 0)
         (filteredTransactions (by_date Desc) april10 ledger)
       = [tx 2 ''2024-03-02'' 400 Expense ''Rent'', tx 3 ''2024-03-02'' 200 Saved ''Savings'']"
  proof -
    from sorting_stable[OF vd, of april10]
    have "\<forall>t\<in>set (applyFilters (by_date Desc) april10 ledger).
          filter (\<lambda>u. compare_tx SortDate Desc t u = 0) (filteredTransactions (by_date Desc) april10 ledger)
        = filter (\<lambda>u. compare_tx SortDate Desc t u = 0) (applyFilters (by_date Desc) april10 ledger)"
      by simp
    then have "filter (\<lambda>u. compare_tx SortDate Desc (tx 3 ''2024-03-02'' 200 Saved ''Savings'') u = 0)
                 (filteredTransactions (by_date Desc) april10 ledger)
        = filter (\<lambda>u. compare_tx SortDate Desc (tx 3 ''2024-03-02'' 200 Saved ''Savings'') u = 0) ledger"
      unfolding all by simp
    also have "\<dots> = [tx 2 ''2024-03-02'' 400 Expense ''Rent'', tx 3 ''2024-03-02'' 200 Saved ''Savings'']"
      by (simp add: compare_tx_def comparison_def ledger_times)
    finally show ?thesis .
  qed
  from a b ledger_by_amount ledger_by_date show ?thesis by simp
qed

section \<open>Lemmas on parsing and on the export\<close>

lemmas parseFloat_eval =
  parseFloat_def signed_literal_def unsigned_decimal_def exponent_part_def is_space_def
  is_digit_def digits_val_def digit_val_def

lemma parseFloat_200: "parseFloat ''200'' = Fin 200"
  by (simp add: parseFloat_eval)

lemma parseFloat_more:
  "parseFloat ''12.5'' = Fin 12.5"
  "parseFloat '' -3e2x'' = Fin (- 300)"
  "parseFloat ''abc'' = NaN"
  "parseFloat ''Infinity'' = PosInf"
  "parseFloat ''.5'' = Fin 0.5"
  "parseFloat ''1e'' = Fin 1"
  by (simp_all add: parseFloat_eval)

lemmas parseInt_eval =
  parseInt_def unsigned_int_def radix_digits_def digit_of_def lower_char_def is_space_def
  upt_conv_Cons

lemma parseInt_examples:
  "parseInt ''2'' = Some 2"
  "parseInt ''abc'' = None"
  "parseInt ''12abc'' = Some 12"
  "parseInt ''0x1A'' = Some 26"
  "parseInt ''-7'' = Some (- 7)"
  by (simp_all add: parseInt_eval)

lemma csv_eof: "mode \<noteq> Quoted \<Longrightarrow> csv_run mode cur fs rs [] = Some (rev (rev (rev cur # fs) # rs))"
  by (cases mode) simp_all

lemma unquoted_run:
  assumes "csv_plain s"
  shows "csv_run Unquoted cur fs rs (s @ rest) = csv_run Unquoted (rev s @ cur) fs rs rest"
  using assms by (induction s arbitrary: cur) (simp_all add: csv_plain_def)

lemma plain_field:
  assumes "csv_plain s"
  shows "csv_run FieldStart [] fs rs (s @ CHR '','' # rest) = csv_run FieldStart [] (s # fs) rs rest"
proof (cases s)
  case Nil
  then show ?thesis by simp
next
  case (Cons c s')
  with assms have c: "c \<noteq> CHR '',''" "c \<noteq> CHR 0x22" "c \<noteq> CHR 0x0A" and s': "csv_plain s'"
    by (simp_all add: csv_plain_def)
  show ?thesis
    unfolding Cons using c unquoted_run[OF s', of "[c]" fs rs "CHR '','' # rest"]
    by simp
qed

lemma quoted_run:
  "csv_run Quoted cur fs rs (double_quotes s @ CHR 0x22 # rest)
     = csv_run QuoteSeen (rev s @ cur) fs rs rest"
  by (induction s arbitrary: cur) (simp_all add: double_quotes_def)

lemma quoted_field:
  "csv_run FieldStart [] fs rs (quoted s @ rest) = csv_run QuoteSeen (rev s) fs rs rest"
  using quoted_run[of "[]" fs rs s rest] by (simp add: quoted_def)

lemma row_parse:
  assumes "csv_plain a" "csv_plain b" "csv_plain c" "csv_plain d"
  shows "csv_run FieldStart [] [] rs (join '','' [a, b, c, d, quoted r, quoted e] @ rest)
       = csv_run QuoteSeen (rev e) [r, d, c, b, a] rs rest"
proof -
  have "join '','' [a, b, c, d, quoted r, quoted e] @ rest
      = a @ CHR '','' # (b @ CHR '','' # (c @ CHR '','' # (d @ CHR '','' # (quoted r @ CHR '','' # (quoted e @ rest)))))"
    by simp
  then show ?thesis
    by (simp only: plain_field[OF assms(1)] plain_field[OF assms(2)] plain_field[OF assms(3)]
          plain_field[OF assms(4)] quoted_field)
       (simp add: quoted_field)
qed

lemma header_line:
  "csv_run FieldStart [] [] rs (join '','' headers @ CHR 0x0A # rest)
     = csv_run FieldStart [] [] (headers # rs) rest"
  "csv_run FieldStart [] [] rs (join '','' headers) = Some (rev (headers # rs))"
  by (simp_all add: headers_def)

lemma type_str_plain: "csv_plain (type_str ty)"
  by (cases ty) (simp_all add: csv_plain_def)

lemma export_row_parse:
  assumes "csv_plain (date t)" "\<forall>x. csv_plain (numStr x)"
  shows "csv_run FieldStart [] [] rs (export_row numStr t @ CHR 0x0A # rest)
           = csv_run FieldStart [] [] (export_fields numStr t # rs) rest"
    and "csv_run FieldStart [] [] rs (export_row numStr t) = Some (rev (export_fields numStr t # rs))"
proof -
  have p: "csv_plain (numStr (real_of_int (tx_id t)))" "csv_plain (numStr (amount t))"
    using assms(2) by simp_all
  show "csv_run FieldStart [] [] rs (export_row numStr t @ CHR 0x0A # rest)
           = csv_run FieldStart [] [] (export_fields numStr t # rs) rest"
    unfolding export_row_def row_parse[OF p(1) assms(1) p(2) type_str_plain]
    by (simp add: export_fields_def)
  have "csv_run FieldStart [] [] rs (export_row numStr t @ []) = Some (rev (export_fields numStr t # rs))"
    unfolding export_row_def row_parse[OF p(1) assms(1) p(2) type_str_plain]
    by (simp add: export_fields_def)
  then show "csv_run FieldStart [] [] rs (export_row numStr t) = Some (rev (export_fields numStr t # rs))"
    by simp
qed

lemma export_rows_parse:
  assumes "xs \<noteq> []" "\<forall>t\<in>set xs. csv_plain (date t)" "\<forall>x. csv_plain (numStr x)"
  shows "csv_run FieldStart [] [] rs (join [CHR 0x0A] (map (export_row numStr) xs))
       = Some (rev rs @ map (export_fields numStr) xs)"
  using assms
proof (induction xs arbitrary: rs rule: list_nonempty_induct)
  case (single t)
  then show ?case by (simp add: export_row_parse(2))
next
  case (cons t xs)
  from cons.hyps obtain u us where xs: "xs = u # us" by (cases xs) auto
  have "join [CHR 0x0A] (map (export_row numStr) (t # xs))
      = export_row numStr t @ CHR 0x0A # join [CHR 0x0A] (map (export_row numStr) xs)"
    unfolding xs by simp
  moreover have "csv_plain (date t)" using cons.prems by simp
  moreover have "csv_run FieldStart [] [] (export_fields numStr t # rs)
                   (join [CHR 0x0A] (map (export_row numStr) xs))
               = Some (rev (export_fields numStr t # rs) @ map (export_fields numStr) xs)"
    by (rule cons.IH) (use cons.prems in simp_all)
  ultimately show ?case
    by (simp only: export_row_parse(1)[OF _ cons.prems(2)] rev.simps append.simps append_assoc
          list.map)
qed

lemma digit_char_plain:
  assumes "d < 10"
  shows "digit_char d \<noteq> CHR '',''" "digit_char d \<noteq> CHR 0x22" "digit_char d \<noteq> CHR 0x0A"
proof -
  from assms have "d = 0 \<or> d = 1 \<or> d = 2 \<or> d = 3 \<or> d = 4 \<or> d = 5 \<or> d = 6 \<or> d = 7 \<or> d = 8 \<or> d = 9"
    by arith
  then show "digit_char d \<noteq> CHR '',''" "digit_char d \<noteq> CHR 0x22" "digit_char d \<noteq> CHR 0x0A"
    by (auto simp: digit_char_def)
qed

lemma show_nat_plain: "csv_plain (show_nat n)"
proof (induction n rule: show_nat.induct)
  case (1 n)
  show ?case
  proof (cases "n < 10")
    case True
    then show ?thesis
      using digit_char_plain[of n] by (subst show_nat.simps) (simp add: csv_plain_def)
  next
    case False
    have "n mod 10 < 10" by simp
    from digit_char_plain[OF this] 1[OF False] False show ?thesis
      by (subst show_nat.simps) (simp add: csv_plain_def)
  qed
qed

lemma int_str_plain: "csv_plain (int_str x)"
  using show_nat_plain[of "nat (- \<lfloor>x\<rfloor>)"] show_nat_plain[of "nat \<lfloor>x\<rfloor>"]
  by (simp add: int_str_def csv_plain_def)

lemma single_view: "filteredTransactions (by_amount ord) now [t] = [t]"
  by (simp add: filteredTransactions_def applyFilters_def array_sort_def)

lemma fancy_numbers: "int_str 5 = ''5''" "int_str 120 = ''120''"
  by (simp_all add: int_str_def show_nat.simps digit_char_def)

section \<open>Export (data tools page)\<close>

text \<open>
  Claim C8. The export is the header line followed by one line per record of the
  filtered, sorted view, with the columns id, date, amount, type, reason, description in
  this order, the reason and the description in double quotes with inner quotes doubled.
  Whenever the dates hold no comma, double quote or line feed and numbers print without
  them, reading the text back by the standard rules returns the header and, for each
  record of the view in order, exactly its six fields: a reason that holds commas and
  quotes comes back unchanged and no neighbouring field is disturbed.
\<close>

theorem export_round_trip:
  assumes "\<forall>t\<in>set ts. csv_plain (date t)" and "\<forall>x. csv_plain (numStr x)"
  shows "spec_csv_parse (csvContent numStr f now ts)
       = Some (headers # map (export_fields numStr) (filteredTransactions f now ts))"
proof -
  let ?xs = "filteredTransactions f now ts"
  have "set ?xs = set (applyFilters f now ts)"
    unfolding filteredTransactions_def by (rule mset_eq_setD[OF mset_array_sort])
  then have sub: "set ?xs \<subseteq> set ts"
    using applyFilters_subset[of f now ts] by simp
  then have plain: "\<forall>t\<in>set ?xs. csv_plain (date t)" using assms(1) by blast
  show ?thesis
  proof (cases "?xs = []")
    case True
    then show ?thesis by (simp add: spec_csv_parse_def csvContent_def header_line(2))
  next
    case False
    then obtain u us where xs: "map (export_row numStr) ?xs = export_row numStr u # map (export_row numStr) us"
      by (cases ?xs) auto
    have "csvContent numStr f now ts
        = join '','' headers @ CHR 0x0A # join [CHR 0x0A] (map (export_row numStr) ?xs)"
      unfolding csvContent_def xs by simp
    then show ?thesis
      unfolding spec_csv_parse_def
      by (simp only: header_line(1) export_rows_parse[OF False plain assms(2)] rev.simps
            append.simps)
  qed
qed

theorem export_round_trip_witness:
  "csvContent int_str (by_amount Asc) april10 [fancy]
     = ''ID,Date,Amount,Type,Reason,Description'' @ [CHR 0x0A] @ ''5,2024-03-05,120,expense,''
       @ [CHR 0x22] @ ''Lunch, '' @ [CHR 0x22, CHR 0x22] @ ''fancy'' @ [CHR 0x22, CHR 0x22, CHR 0x22]
       @ '','' @ [CHR 0x22, CHR 0x22]
   \<and> spec_csv_parse (csvContent int_str (by_amount Asc) april10 [fancy])
     = Some [[''ID'', ''Date'', ''Amount'', ''Type'', ''Reason'', ''Description''],
             [''5'', ''2024-03-05'', ''120'', ''expense'',
              ''Lunch, '' @ [CHR 0x22] @ ''fancy'' @ [CHR 0x22], []]]"
proof -
  have d: "\<forall>t\<in>set [fancy]. csv_plain (date t)" by (simp add: csv_plain_def)
  have n: "\<forall>x. csv_plain (int_str x)" by (simp add: int_str_plain)
  have c: "csvContent int_str (by_amount Asc) april10 [fancy]
     = ''ID,Date,Amount,Type,Reason,Description'' @ [CHR 0x0A] @ ''5,2024-03-05,120,expense,''
       @ [CHR 0x22] @ ''Lunch, '' @ [CHR 0x22, CHR 0x22] @ ''fancy'' @ [CHR 0x22, CHR 0x22, CHR 0x22]
       @ '','' @ [CHR 0x22, CHR 0x22]"
    by (simp add: csvContent_def single_view export_row_def headers_def fancy_numbers quoted_def
          double_quotes_def)
  from export_round_trip[OF d n, of "by_amount Asc" april10] c show ?thesis
    by (simp add: single_view export_fields_def headers_def fancy_numbers)
qed

section \<open>Runway (earlier data tools page)\<close>



section \<open>Transactions API\<close>

text \<open>
  Claim C1 says that a creation request is rejected exactly when a required field is
  missing, the parsed amount is not positive or the type is outside income, expense,
  saved, so that a valid request of type \<^verbatim>\<open>saved\<close> is accepted. The handler's list of
  types is \<^verbatim>\<open>["income", "expense"]\<close>: the request below, valid in every field and of
  type \<^verbatim>\<open>saved\<close>, gets status 400 and nothing is inserted, while the same request with
  type \<^verbatim>\<open>expense\<close> is inserted with status 201.
\<close>

theorem post_rejects_saved:
  "POST two_rows saved_request None None
     = (two_rows, \<lparr>status = 400, payload = TypeNotAllowed\<rparr>)
   \<and> POST two_rows (saved_request(''type'' := JString ''expense'')) None None
       = (\<lparr>rows = rows two_rows @
                  [\<lparr>row_id = 3, row_date = JString ''2024-03-02'', row_amount = Fin 200,
                    row_type = JString ''expense'', row_reason = JString ''Savings'',
                    row_description = JString []\<rparr>],
            lastInsertRowid = 3\<rparr>,
          \<lparr>status = 201, payload = TransactionAdded 3\<rparr>)"
  by (simp add: POST_def Let_def parseFloat_200)




end
